theory Spec2Isabelle
  imports Complex_Main "HOL-Library.Word" "HOL-Library.Multiset"
begin

section \<open>The upstream registry of internal/alertmanager/upstream.go\<close>

text \<open>
  The file keeps a package-level map \<open>upstreams\<close> from names to \<open>*Alertmanager\<close>,
  builds descriptors with functional options (\<open>NewAlertmanager\<close>), and offers
  \<open>RegisterAlertmanager\<close>, \<open>GetAlertmanagers\<close> and \<open>GetAlertmanagerByName\<close>.

  Modelling decisions:
  \<^item> a Go pointer \<open>*Alertmanager\<close> is \<open>nil\<close> or \<open>Ptr am\<close>, the value it points to.
    None of the functions of the file writes through a pointer that is already in
    the registry, so no store is needed;
  \<^item> a Go \<open>error\<close> is \<open>None\<close> (the nil error) or \<open>Some (Errorf msg)\<close>;
  \<^item> a nil dereference is the result \<open>Inl NilDereference\<close>;
  \<^item> the map \<open>upstreams\<close> is a partial function, passed in and returned. Go ranges
    over a map in an order of the runtime's choosing: every function with a
    \<open>range upstreams\<close> loop takes that order as its first argument, a list of keys;
  \<^item> \<open>time.Duration\<close> is an \<open>int64\<close> of nanoseconds: a 64-bit word, read with \<open>sint\<close>;
  \<^item> the line written to the log by \<open>RegisterAlertmanager\<close> is not modelled.
\<close>

subsection \<open>Data\<close>

datatype 'a pointer = nil | Ptr 'a

datatype error = Errorf string

datatype panic = NilDereference

type_synonym Duration = "64 word"

definition Second :: Duration where
  "Second = 1000000000"

text \<open>
  The element types of the snapshot come from package \<open>models\<close>, the bound transport
  from package \<open>transport\<close>, and \<open>http.RoundTripper\<close> from the standard library. The
  file only stores their values, so they stay abstract here.
\<close>

typedecl AlertGroup
typedecl Silence
typedecl LabelColors
typedecl Autocomplete
typedecl RoundTripper
typedecl Transport

text \<open>\<open>alertmanagerMetrics\<close>: the composite literal of \<open>NewAlertmanager\<close> sets its one
  field \<open>errors\<close>, a \<open>map[string]float64\<close>. The only number the file writes is 0.\<close>

record alertmanagerMetrics =
  errors :: "string \<rightharpoonup> real"

text \<open>
  Modelled from the spec: the declaration of struct \<open>Alertmanager\<close> is not in
  upstream.go. The fields are the ones that \<open>NewAlertmanager\<close> and the options
  read and write; \<open>colors\<close> (a \<open>models.LabelsColorMap\<close>) is, in the words of the
  specification, a mapping from (label name, label value) to a colour. An interface
  or pointer field holds \<open>None\<close> for Go's nil. The \<open>lock\<close> field, a \<open>sync.RWMutex\<close>,
  has no content in a sequential model and is left out.
\<close>

record Alertmanager =
  URI :: string
  RequestTimeout :: Duration
  ProxyRequests :: bool
  Name :: string
  httpTransport :: "RoundTripper option"
  transport :: "Transport option"
  alertGroups :: "AlertGroup list"
  silences :: "string \<rightharpoonup> Silence"
  colors :: "(string \<times> string) \<rightharpoonup> LabelColors"
  autocomplete :: "Autocomplete list"
  metrics :: alertmanagerMetrics

text \<open>\<open>type Option func(am *Alertmanager) error\<close>: an option receives the descriptor
  under construction, may write to it, and returns an error or nil.\<close>

type_synonym Option = "Alertmanager \<Rightarrow> Alertmanager \<times> error option"

type_synonym upstreams = "string \<rightharpoonup> Alertmanager pointer"

subsection \<open>The options\<close>

definition WithProxy :: "bool \<Rightarrow> Option" where
  "WithProxy proxied = (\<lambda>am. (am\<lparr>ProxyRequests := proxied\<rparr>, None))"

definition WithRequestTimeout :: "Duration \<Rightarrow> Option" where
  "WithRequestTimeout timeout = (\<lambda>am. (am\<lparr>RequestTimeout := timeout\<rparr>, None))"

definition WithHTTPTransport :: "RoundTripper option \<Rightarrow> Option" where
  "WithHTTPTransport rt = (\<lambda>am. (am\<lparr>httpTransport := rt\<rparr>, None))"

subsection \<open>NewAlertmanager\<close>

text \<open>
  The composite literal at the head of \<open>NewAlertmanager\<close>. The two keys of the error
  counters, \<open>labelValueErrorsAlerts\<close> and \<open>labelValueErrorsSilences\<close>, are constants
  declared elsewhere in the package: they are parameters here. Fields the literal
  does not mention get Go's zero value.
\<close>

definition newDescriptor :: "string \<Rightarrow> string \<Rightarrow> string \<Rightarrow> string \<Rightarrow> Alertmanager" where
  "newDescriptor labelValueErrorsAlerts labelValueErrorsSilences name uri =
     \<lparr> URI = uri,
       RequestTimeout = Second * 10,
       ProxyRequests = False,
       Name = name,
       httpTransport = None,
       transport = None,
       alertGroups = [],
       silences = Map.empty,
       colors = Map.empty,
       autocomplete = [],
       metrics = \<lparr> errors = [labelValueErrorsAlerts \<mapsto> 0, labelValueErrorsSilences \<mapsto> 0] \<rparr> \<rparr>"

text \<open>The loop \<open>for _, opt := range opts\<close>: the first error leaves the loop.\<close>

fun applyOptions :: "Option list \<Rightarrow> Alertmanager \<Rightarrow> error + Alertmanager" where
  "applyOptions [] am = Inr am"
| "applyOptions (opt # opts) am =
     (case opt am of
        (am', Some err) \<Rightarrow> Inl err
      | (am', None) \<Rightarrow> applyOptions opts am')"

text \<open>
  \<open>transport.NewTransport\<close> lives in another package and is a parameter: from the
  URI, the timeout and the round tripper it returns a transport and an error.
  \<open>NewAlertmanager\<close> returns a pair, as in Go: \<open>(nil, err)\<close> when an option fails,
  \<open>(am, err)\<close> when the transport cannot be bound, \<open>(am, nil)\<close> otherwise.
\<close>

definition NewAlertmanager ::
  "(string \<Rightarrow> Duration \<Rightarrow> RoundTripper option \<Rightarrow> Transport option \<times> error option)
   \<Rightarrow> string \<Rightarrow> string \<Rightarrow> string \<Rightarrow> string \<Rightarrow> Option list
   \<Rightarrow> Alertmanager pointer \<times> error option" where
  "NewAlertmanager NewTransport labelValueErrorsAlerts labelValueErrorsSilences name uri opts =
     (case applyOptions opts
             (newDescriptor labelValueErrorsAlerts labelValueErrorsSilences name uri) of
        Inl err \<Rightarrow> (nil, Some err)
      | Inr am \<Rightarrow>
          (case NewTransport (URI am) (RequestTimeout am) (httpTransport am) of
             (t, err) \<Rightarrow>
               (let am' = am\<lparr>transport := t\<rparr>
                in (case err of
                      Some e \<Rightarrow> (Ptr am', Some e)
                    | None \<Rightarrow> (Ptr am', None)))))"

text \<open>A transport binding that always succeeds and one that always fails, to run
  \<open>NewAlertmanager\<close> on concrete inputs.\<close>

definition bindNothing ::
  "string \<Rightarrow> Duration \<Rightarrow> RoundTripper option \<Rightarrow> Transport option \<times> error option" where
  "bindNothing uri timeout rt = (None, None)"

definition bindFails ::
  "string \<Rightarrow> Duration \<Rightarrow> RoundTripper option \<Rightarrow> Transport option \<times> error option" where
  "bindFails uri timeout rt = (None, Some (Errorf ''unsupported URI scheme''))"

text \<open>The options the file defines: the "recognized options" of the specification.\<close>

definition recognized :: "Option \<Rightarrow> bool" where
  "recognized opt \<longleftrightarrow>
     opt \<in> range WithProxy \<union> range WithRequestTimeout \<union> range WithHTTPTransport"

subsection \<open>The registry\<close>

text \<open>The two errors of \<open>RegisterAlertmanager\<close>, as \<open>fmt.Errorf\<close> builds them. The
  specification calls them \<open>DuplicateName\<close> and \<open>DuplicateSource\<close>.\<close>

definition quote :: string where
  "quote = [CHR 0x27]"

definition DuplicateName :: "string \<Rightarrow> error" where
  "DuplicateName name =
     Errorf (''Alertmanager upstream '' @ quote @ name @ quote @ '' already exist'')"

definition DuplicateSource :: "string \<Rightarrow> string \<Rightarrow> error" where
  "DuplicateSource existingName existingURI =
     Errorf (''Alertmanager upstream '' @ quote @ existingName @ quote
             @ '' already collects from '' @ quote @ existingURI @ quote)"

text \<open>
  The loop \<open>for _, existingAM := range upstreams\<close> of \<open>RegisterAlertmanager\<close>, over
  the keys in the order the runtime visits them. It returns the error of the first
  entry with the same URI, \<open>None\<close> when it runs to its end, and panics when it reads
  the URI of a nil entry.
\<close>

fun rangeUpstreams :: "string list \<Rightarrow> upstreams \<Rightarrow> Alertmanager \<Rightarrow> panic + error option" where
  "rangeUpstreams [] ups am = Inr None"
| "rangeUpstreams (k # ks) ups am =
     (case ups k of
        None \<Rightarrow> rangeUpstreams ks ups am
      | Some nil \<Rightarrow> Inl NilDereference
      | Some (Ptr existingAM) \<Rightarrow>
          if URI existingAM = URI am
          then Inr (Some (DuplicateSource (Name existingAM) (URI existingAM)))
          else rangeUpstreams ks ups am)"

definition RegisterAlertmanager ::
  "string list \<Rightarrow> upstreams \<Rightarrow> Alertmanager pointer \<Rightarrow> panic + (upstreams \<times> error option)" where
  "RegisterAlertmanager order ups p =
     (case p of
        nil \<Rightarrow> Inl NilDereference
      | Ptr am \<Rightarrow>
          (case ups (Name am) of
             Some existing \<Rightarrow> Inr (ups, Some (DuplicateName (Name am)))
           | None \<Rightarrow>
               (case rangeUpstreams order ups am of
                  Inl pn \<Rightarrow> Inl pn
                | Inr (Some err) \<Rightarrow> Inr (ups, Some err)
                | Inr None \<Rightarrow> Inr (ups(Name am \<mapsto> Ptr am), None))))"

text \<open>\<open>GetAlertmanagers\<close> appends every value of the map, in the order of the range.\<close>

fun GetAlertmanagers :: "string list \<Rightarrow> upstreams \<Rightarrow> Alertmanager pointer list" where
  "GetAlertmanagers [] ups = []"
| "GetAlertmanagers (k # ks) ups =
     (case ups k of
        None \<Rightarrow> GetAlertmanagers ks ups
      | Some am \<Rightarrow> am # GetAlertmanagers ks ups)"

definition GetAlertmanagerByName :: "upstreams \<Rightarrow> string \<Rightarrow> Alertmanager pointer" where
  "GetAlertmanagerByName ups name =
     (case ups name of
        Some am \<Rightarrow> am
      | None \<Rightarrow> nil)"

subsection \<open>Ranges, reachable registries and sequences of registrations\<close>

text \<open>An order in which a \<open>range\<close> loop may visit the map: every key, once.\<close>

definition iteration_of :: "string list \<Rightarrow> upstreams \<Rightarrow> bool" where
  "iteration_of order ups \<longleftrightarrow> distinct order \<and> set order = dom ups"

text \<open>
  What \<open>RegisterAlertmanager\<close> maintains: no entry is nil, every entry is filed
  under its own name, and no two entries have the same URI.
\<close>

definition registry_ok :: "upstreams \<Rightarrow> bool" where
  "registry_ok ups \<longleftrightarrow>
     (\<forall>k p. ups k = Some p \<longrightarrow> (\<exists>am. p = Ptr am \<and> Name am = k)) \<and>
     (\<forall>k k' am am'. ups k = Some (Ptr am) \<and> ups k' = Some (Ptr am') \<and> URI am = URI am'
        \<longrightarrow> k = k')"

text \<open>
  \<open>registrations ups ams ups'\<close>: calling \<open>RegisterAlertmanager\<close> on the descriptors
  \<open>ams\<close>, one after the other from the registry \<open>ups\<close>, each call ranging over the map
  in some order and returning nil, ends in the registry \<open>ups'\<close>.
\<close>

inductive registrations :: "upstreams \<Rightarrow> Alertmanager list \<Rightarrow> upstreams \<Rightarrow> bool" where
  reg_none: "registrations ups [] ups"
| reg_call: "iteration_of order ups \<Longrightarrow>
         RegisterAlertmanager order ups (Ptr am) = Inr (ups', None) \<Longrightarrow>
         registrations ups' ams ups'' \<Longrightarrow>
         registrations ups (am # ams) ups''"

text \<open>The registry that files every descriptor of a list under its name.\<close>

definition filed :: "Alertmanager list \<Rightarrow> upstreams" where
  "filed ams = map_of (map (\<lambda>am. (Name am, Ptr am)) ams)"

subsection \<open>Concrete inputs\<close>

text \<open>The sources of the scenario of the specification, an option that fails, and
  the registries after one and after two registrations.\<close>

definition primary :: Alertmanager where
  "primary = newDescriptor ''alerts'' ''silences'' ''primary'' ''http://a.example/api''"

definition secondary :: Alertmanager where
  "secondary = newDescriptor ''alerts'' ''silences'' ''secondary'' ''http://b.example/api''"

definition tertiary :: Alertmanager where
  "tertiary = newDescriptor ''alerts'' ''silences'' ''tertiary'' ''http://a.example/api''"

definition primaryMoved :: Alertmanager where
  "primaryMoved = newDescriptor ''alerts'' ''silences'' ''primary'' ''http://c.example/api''"

definition failingOption :: "error \<Rightarrow> Option" where
  "failingOption err = (\<lambda>am. (am, Some err))"

definition oneUpstream :: upstreams where
  "oneUpstream = [''primary'' \<mapsto> Ptr primary]"

definition twoUpstreams :: upstreams where
  "twoUpstreams = [''primary'' \<mapsto> Ptr primary, ''secondary'' \<mapsto> Ptr secondary]"

section \<open>Construction\<close>

lemma applyOptions_append:
  "applyOptions (xs @ ys) am =
     (case applyOptions xs am of Inl e \<Rightarrow> Inl e | Inr am' \<Rightarrow> applyOptions ys am')"
  by (induction xs arbitrary: am) (auto split: prod.splits option.splits)

lemma recognized_cases:
  assumes "recognized opt"
  obtains proxied where "opt = WithProxy proxied"
  | timeout where "opt = WithRequestTimeout timeout"
  | rt where "opt = WithHTTPTransport rt"
  using assms unfolding recognized_def by blast

lemma applyOptions_recognized:
  assumes "\<forall>opt\<in>set opts. recognized opt"
  shows "\<exists>am'. applyOptions opts am = Inr am' \<and> alertGroups am' = alertGroups am \<and>
           silences am' = silences am \<and> colors am' = colors am \<and>
           autocomplete am' = autocomplete am \<and> metrics am' = metrics am \<and>
           Name am' = Name am \<and> URI am' = URI am"
  using assms
proof (induction opts arbitrary: am)
  case Nil
  then show ?case by simp
next
  case (Cons opt opts)
  from Cons.prems have r: "recognized opt" and rest: "\<forall>opt\<in>set opts. recognized opt"
    by simp_all
  from r show ?case
  proof (cases rule: recognized_cases)
    case (1 proxied)
    with Cons.IH [OF rest, of "am\<lparr>ProxyRequests := proxied\<rparr>"] show ?thesis
      by (simp add: WithProxy_def)
  next
    case (2 timeout)
    with Cons.IH [OF rest, of "am\<lparr>RequestTimeout := timeout\<rparr>"] show ?thesis
      by (simp add: WithRequestTimeout_def)
  next
    case (3 rt)
    with Cons.IH [OF rest, of "am\<lparr>httpTransport := rt\<rparr>"] show ?thesis
      by (simp add: WithHTTPTransport_def)
  qed
qed

lemma applyOptions_no_timeout:
  assumes "\<forall>opt\<in>set opts. opt \<in> range WithProxy \<union> range WithHTTPTransport"
  shows "\<exists>am'. applyOptions opts am = Inr am' \<and> RequestTimeout am' = RequestTimeout am"
  using assms
proof (induction opts arbitrary: am)
  case Nil
  then show ?case by simp
next
  case (Cons opt opts)
  from Cons.prems have rest: "\<forall>opt\<in>set opts. opt \<in> range WithProxy \<union> range WithHTTPTransport"
    by simp
  from Cons.prems consider proxied where "opt = WithProxy proxied"
    | rt where "opt = WithHTTPTransport rt"
    by auto
  then show ?case
  proof cases
    case 1
    with Cons.IH [OF rest, of "am\<lparr>ProxyRequests := proxied\<rparr>"] show ?thesis
      by (simp add: WithProxy_def)
  next
    case 2
    with Cons.IH [OF rest, of "am\<lparr>httpTransport := rt\<rparr>"] show ?thesis
      by (simp add: WithHTTPTransport_def)
  qed
qed

lemma NewAlertmanager_applied:
  assumes "applyOptions opts (newDescriptor a s name uri) = Inr am"
  shows "NewAlertmanager NT a s name uri opts =
           (Ptr (am\<lparr>transport := fst (NT (URI am) (RequestTimeout am) (httpTransport am))\<rparr>),
            snd (NT (URI am) (RequestTimeout am) (httpTransport am)))"
  using assms by (simp add: NewAlertmanager_def Let_def split: prod.splits option.splits)

lemma ten_seconds: "sint (Second * 10) = 10 * 10 ^ 9"
  by (simp add: Second_def)

text \<open>
  Claim C5. For every name and URI and every list of options none of which is the
  request-timeout option (each is \<open>WithProxy\<close> or \<open>WithHTTPTransport\<close>),
  \<open>NewAlertmanager\<close> returns a descriptor, and its \<open>RequestTimeout\<close> is
  \<open>time.Second * 10\<close>, that is 10000000000 nanoseconds, whatever the transport binding does.
\<close>

theorem NewAlertmanager_default_timeout:
  assumes "\<forall>opt\<in>set opts. opt \<in> range WithProxy \<union> range WithHTTPTransport"
  shows "\<exists>am. fst (NewAlertmanager NT a s name uri opts) = Ptr am \<and>
           RequestTimeout am = Second * 10 \<and> sint (RequestTimeout am) = 10 * 10 ^ 9"
proof -
  from applyOptions_no_timeout [OF assms, of "newDescriptor a s name uri"]
  obtain am where am: "applyOptions opts (newDescriptor a s name uri) = Inr am"
    and t: "RequestTimeout am = Second * 10"
    by (auto simp: newDescriptor_def)
  show ?thesis
    using t by (simp add: NewAlertmanager_applied [OF am] ten_seconds)
qed

theorem NewAlertmanager_default_timeout_witness:
  "WithProxy True \<in> range WithProxy \<union> range WithHTTPTransport \<and>
   WithHTTPTransport None \<in> range WithProxy \<union> range WithHTTPTransport \<and>
   (\<exists>am. fst (NewAlertmanager bindFails ''alerts'' ''silences'' ''primary''
                 ''http://a.example/api'' [WithProxy True, WithHTTPTransport None]) = Ptr am \<and>
      RequestTimeout am = Second * 10 \<and> sint (RequestTimeout am) = 10 * 10 ^ 9)"
proof -
  have h: "\<forall>opt\<in>set [WithProxy True, WithHTTPTransport None].
             opt \<in> range WithProxy \<union> range WithHTTPTransport"
    by simp
  from NewAlertmanager_default_timeout [OF h, of bindFails "''alerts''" "''silences''"
      "''primary''" "''http://a.example/api''"]
  show ?thesis by simp
qed

text \<open>
  Claim C6. When the options before \<open>opt\<close> apply without error to the descriptor
  under construction and \<open>opt\<close> then returns the error \<open>err\<close>, \<open>NewAlertmanager\<close>
  returns \<open>(nil, err)\<close>: that error and no descriptor, whatever options \<open>post\<close>
  follow in the list and whatever the transport binding would do.
\<close>

theorem NewAlertmanager_option_error_aborts:
  assumes "applyOptions pre (newDescriptor a s name uri) = Inr am"
    and "snd (opt am) = Some err"
  shows "NewAlertmanager NT a s name uri (pre @ opt # post) = (nil, Some err)"
proof -
  from assms(2) obtain am1 where "opt am = (am1, Some err)"
    by (cases "opt am") simp
  with assms(1) show ?thesis
    by (simp add: NewAlertmanager_def applyOptions_append)
qed

theorem NewAlertmanager_option_error_aborts_witness:
  "applyOptions [WithProxy True] primary = Inr (primary\<lparr>ProxyRequests := True\<rparr>) \<and>
   snd (failingOption (Errorf ''bad option'') (primary\<lparr>ProxyRequests := True\<rparr>)) =
     Some (Errorf ''bad option'') \<and>
   NewAlertmanager bindNothing ''alerts'' ''silences'' ''primary'' ''http://a.example/api''
       ([WithProxy True] @ failingOption (Errorf ''bad option'') # [WithRequestTimeout 5]) =
     (nil, Some (Errorf ''bad option''))"
proof -
  have h1: "applyOptions [WithProxy True]
              (newDescriptor ''alerts'' ''silences'' ''primary'' ''http://a.example/api'') =
            Inr (primary\<lparr>ProxyRequests := True\<rparr>)"
    by (simp add: WithProxy_def primary_def)
  have h2: "snd (failingOption (Errorf ''bad option'') (primary\<lparr>ProxyRequests := True\<rparr>)) =
            Some (Errorf ''bad option'')"
    by (simp add: failingOption_def)
  from NewAlertmanager_option_error_aborts
    [where opt = "failingOption (Errorf ''bad option'')" and NT = bindNothing
       and post = "[WithRequestTimeout 5]", OF h1 h2]
  show ?thesis using h1 h2 by (simp add: primary_def)
qed

text \<open>
  Claim C7. For every name and URI and every list of the options this file defines
  (they all apply without error), the descriptor that \<open>NewAlertmanager\<close> returns
  has no alert groups, no silences, no colours, no autocomplete hints, and the two
  error counters, the only keys of \<open>metrics.errors\<close>, at 0.
\<close>

theorem NewAlertmanager_initial_snapshot:
  assumes "\<forall>opt\<in>set opts. recognized opt"
  shows "\<exists>am. fst (NewAlertmanager NT a s name uri opts) = Ptr am \<and>
           alertGroups am = [] \<and> silences am = Map.empty \<and> colors am = Map.empty \<and>
           autocomplete am = [] \<and>
           errors (metrics am) a = Some 0 \<and> errors (metrics am) s = Some 0 \<and>
           dom (errors (metrics am)) = {a, s}"
proof -
  from applyOptions_recognized [OF assms, of "newDescriptor a s name uri"]
  obtain am where am: "applyOptions opts (newDescriptor a s name uri) = Inr am"
    and snap: "alertGroups am = []" "silences am = Map.empty" "colors am = Map.empty"
      "autocomplete am = []"
      "metrics am = \<lparr> errors = [a \<mapsto> 0, s \<mapsto> 0] \<rparr>"
    by (auto simp: newDescriptor_def)
  show ?thesis
    using snap by (auto simp add: NewAlertmanager_applied [OF am])
qed

theorem NewAlertmanager_initial_snapshot_witness:
  "recognized (WithRequestTimeout 5) \<and> recognized (WithProxy True) \<and>
   (\<exists>am. fst (NewAlertmanager bindNothing ''alerts'' ''silences'' ''primary''
                 ''http://a.example/api'' [WithRequestTimeout 5, WithProxy True]) = Ptr am \<and>
      alertGroups am = [] \<and> silences am = Map.empty \<and> colors am = Map.empty \<and>
      autocomplete am = [] \<and>
      errors (metrics am) ''alerts'' = Some 0 \<and> errors (metrics am) ''silences'' = Some 0 \<and>
      dom (errors (metrics am)) = {''alerts'', ''silences''})"
proof -
  have h: "\<forall>opt\<in>set [WithRequestTimeout 5, WithProxy True]. recognized opt"
    by (simp add: recognized_def)
  from NewAlertmanager_initial_snapshot [OF h, of bindNothing "''alerts''" "''silences''"
      "''primary''" "''http://a.example/api''"]
  show ?thesis using h by simp
qed

text \<open>
  Claim C3, as stated, fails: \<open>WithRequestTimeout\<close> stores the duration without
  looking at it. With a timeout of 0, and with one of -1 nanosecond,
  \<open>NewAlertmanager\<close> returns a descriptor carrying that timeout and a nil error.
\<close>

theorem WithRequestTimeout_nonpositive_accepted:
  "sint (0 :: Duration) \<le> 0 \<and> sint (- 1 :: Duration) \<le> 0 \<and>
   NewAlertmanager bindNothing ''alerts'' ''silences'' ''primary'' ''http://a.example/api''
       [WithRequestTimeout 0] =
     (Ptr (primary\<lparr>RequestTimeout := 0\<rparr>), None) \<and>
   NewAlertmanager bindNothing ''alerts'' ''silences'' ''primary'' ''http://a.example/api''
       [WithRequestTimeout (- 1)] =
     (Ptr (primary\<lparr>RequestTimeout := - 1\<rparr>), None)"
  by (simp add: WithRequestTimeout_def NewAlertmanager_def newDescriptor_def bindNothing_def
      primary_def)

text \<open>
  Claim C3, amended. For every duration \<open>d\<close>, zero and negative ones included, the
  option \<open>WithRequestTimeout d\<close> returns no error and sets \<open>RequestTimeout\<close> to \<open>d\<close>;
  \<open>NewAlertmanager\<close> with this option returns a descriptor whose \<open>RequestTimeout\<close>
  is \<open>d\<close>, together with whatever error the transport binding gives for it.
\<close>

theorem WithRequestTimeout_never_fails:
  "WithRequestTimeout d am = (am\<lparr>RequestTimeout := d\<rparr>, None) \<and>
   (\<exists>am'. NewAlertmanager NT a s name uri [WithRequestTimeout d] = (Ptr am', snd (NT uri d None)) \<and>
      RequestTimeout am' = d)"
  by (simp add: WithRequestTimeout_def NewAlertmanager_def newDescriptor_def Let_def
      split: prod.splits option.splits)

theorem WithRequestTimeout_never_fails_witness:
  "WithRequestTimeout (- 5) primary = (primary\<lparr>RequestTimeout := - 5\<rparr>, None) \<and>
   (\<exists>am'. NewAlertmanager bindFails ''alerts'' ''silences'' ''primary'' ''http://a.example/api''
            [WithRequestTimeout (- 5)] =
          (Ptr am', Some (Errorf ''unsupported URI scheme'')) \<and>
      RequestTimeout am' = - 5)"
  using WithRequestTimeout_never_fails [of "- 5" primary bindFails "''alerts''" "''silences''"
      "''primary''" "''http://a.example/api''"]
  by (simp add: bindFails_def)

section \<open>Registration and lookup\<close>

lemma DuplicateName_neq_DuplicateSource: "DuplicateName n \<noteq> DuplicateSource m u"
proof
  assume "DuplicateName n = DuplicateSource m u"
  then have "last (''Alertmanager upstream '' @ quote @ n @ quote @ '' already exist'') =
             last (''Alertmanager upstream '' @ quote @ m @ quote
                   @ '' already collects from '' @ quote @ u @ quote)"
    by (simp only: DuplicateName_def DuplicateSource_def error.inject)
  then show False
    by (simp add: quote_def)
qed

lemma Register_duplicate_name:
  "Name am \<in> dom ups \<Longrightarrow>
   RegisterAlertmanager order ups (Ptr am) = Inr (ups, Some (DuplicateName (Name am)))"
  by (auto simp: RegisterAlertmanager_def)

lemma Register_success:
  assumes "RegisterAlertmanager order ups p = Inr (ups', None)"
  obtains am where "p = Ptr am" and "ups (Name am) = None"
    and "rangeUpstreams order ups am = Inr None" and "ups' = ups(Name am \<mapsto> Ptr am)"
  using assms
  by (auto simp: RegisterAlertmanager_def split: pointer.splits option.splits sum.splits)

lemma rangeUpstreams_found:
  assumes "registry_ok ups" and "ups k = Some (Ptr e)" and "URI e = URI am"
  shows "k \<in> set order \<Longrightarrow>
         rangeUpstreams order ups am = Inr (Some (DuplicateSource k (URI am)))"
proof (induction order)
  case Nil
  then show ?case by simp
next
  case (Cons k' ks)
  show ?case
  proof (cases "ups k'")
    case None
    with assms(2) Cons show ?thesis by auto
  next
    case (Some p)
    with assms(1) obtain e' where e': "p = Ptr e'" "Name e' = k'"
      unfolding registry_ok_def by blast
    show ?thesis
    proof (cases "URI e' = URI am")
      case True
      with assms Some e' have "k' = k"
        unfolding registry_ok_def by metis
      with assms Some e' True show ?thesis by simp
    next
      case False
      with assms Some e' have "k' \<noteq> k" by auto
      with Cons Some e' False show ?thesis by simp
    qed
  qed
qed

lemma rangeUpstreams_none:
  "rangeUpstreams order ups am = Inr None \<Longrightarrow> k \<in> set order \<Longrightarrow> ups k = Some p \<Longrightarrow>
   \<exists>e. p = Ptr e \<and> URI e \<noteq> URI am"
  by (induction order) (auto split: option.splits pointer.splits if_splits)

lemma rangeUpstreams_fresh:
  "\<forall>k p. ups k = Some p \<longrightarrow> (\<exists>e. p = Ptr e \<and> URI e \<noteq> URI am) \<Longrightarrow>
   rangeUpstreams order ups am = Inr None"
  by (induction order) (auto split: option.splits pointer.splits)

lemma Register_fresh:
  assumes "ups (Name am) = None"
    and "\<forall>k p. ups k = Some p \<longrightarrow> (\<exists>e. p = Ptr e \<and> URI e \<noteq> URI am)"
  shows "RegisterAlertmanager order ups (Ptr am) = Inr (ups(Name am \<mapsto> Ptr am), None)"
  using assms(1) rangeUpstreams_fresh [OF assms(2)]
  by (simp add: RegisterAlertmanager_def)

lemma registry_ok_empty: "registry_ok Map.empty"
  by (simp add: registry_ok_def)

lemma registry_ok_update:
  assumes "registry_ok ups" and "ups (Name am) = None"
    and "\<forall>k p. ups k = Some p \<longrightarrow> (\<exists>e. p = Ptr e \<and> URI e \<noteq> URI am)"
  shows "registry_ok (ups(Name am \<mapsto> Ptr am))"
  unfolding registry_ok_def
proof (intro conjI allI impI)
  fix k p
  assume "(ups(Name am \<mapsto> Ptr am)) k = Some p"
  with assms(1) show "\<exists>e. p = Ptr e \<and> Name e = k"
    unfolding registry_ok_def by (cases "k = Name am") auto
next
  fix k k' e e'
  assume h: "(ups(Name am \<mapsto> Ptr am)) k = Some (Ptr e) \<and>
             (ups(Name am \<mapsto> Ptr am)) k' = Some (Ptr e') \<and> URI e = URI e'"
  show "k = k'"
  proof (cases "k = Name am")
    case True
    with h have e: "e = am" by simp
    show ?thesis
    proof (cases "k' = Name am")
      case True
      with \<open>k = Name am\<close> show ?thesis by simp
    next
      case False
      with h have "ups k' = Some (Ptr e')" by simp
      with assms(3) have "URI e' \<noteq> URI am" by fastforce
      with h e show ?thesis by simp
    qed
  next
    case False
    with h have k: "ups k = Some (Ptr e)" by simp
    show ?thesis
    proof (cases "k' = Name am")
      case True
      with h have "e' = am" by simp
      moreover from k assms(3) have "URI e \<noteq> URI am" by fastforce
      ultimately show ?thesis using h by simp
    next
      case False
      with h have "ups k' = Some (Ptr e')" by simp
      with k h assms(1) show ?thesis
        unfolding registry_ok_def by blast
    qed
  qed
qed

lemma Register_registry_ok:
  assumes "registry_ok ups" and "iteration_of order ups"
    and "RegisterAlertmanager order ups p = Inr (ups', None)"
  shows "registry_ok ups'"
proof -
  from assms(3) obtain am where am: "p = Ptr am" "ups (Name am) = None"
    "rangeUpstreams order ups am = Inr None" "ups' = ups(Name am \<mapsto> Ptr am)"
    by (rule Register_success)
  have "\<forall>k p. ups k = Some p \<longrightarrow> (\<exists>e. p = Ptr e \<and> URI e \<noteq> URI am)"
  proof (intro allI impI)
    fix k p assume "ups k = Some p"
    moreover from this assms(2) have "k \<in> set order"
      by (auto simp: iteration_of_def)
    ultimately show "\<exists>e. p = Ptr e \<and> URI e \<noteq> URI am"
      using rangeUpstreams_none [OF am(3)] by blast
  qed
  with assms(1) am show ?thesis
    by (simp add: registry_ok_update)
qed

lemma registrations_registry_ok:
  "registrations ups ams ups' \<Longrightarrow> registry_ok ups \<Longrightarrow> registry_ok ups'"
  by (induction rule: registrations.induct) (auto intro: Register_registry_ok)

lemma iteration_of_oneUpstream: "iteration_of [''primary''] oneUpstream"
  by (simp add: iteration_of_def oneUpstream_def)

lemma registry_ok_oneUpstream: "registry_ok oneUpstream"
  unfolding oneUpstream_def
  using registry_ok_update [OF registry_ok_empty, of primary]
  by (simp add: primary_def newDescriptor_def)

text \<open>
  Claim C1. In every registry and for every order of the range, registering a
  descriptor whose name is already a key of the registry returns the
  \<open>DuplicateName\<close> error for that name, and the registry returned is the registry
  given: the entry under the name and every other entry are as before.
\<close>

theorem Register_duplicate_name_unchanged:
  assumes "Name am \<in> dom ups"
  shows "RegisterAlertmanager order ups (Ptr am) = Inr (ups, Some (DuplicateName (Name am)))"
  using assms by (rule Register_duplicate_name)

theorem Register_duplicate_name_unchanged_witness:
  "Name primaryMoved \<in> dom oneUpstream \<and>
   RegisterAlertmanager [''primary''] oneUpstream (Ptr primaryMoved) =
     Inr (oneUpstream, Some (DuplicateName ''primary'')) \<and>
   oneUpstream ''primary'' = Some (Ptr primary) \<and>
   URI primary = ''http://a.example/api''"
proof -
  have h: "Name primaryMoved \<in> dom oneUpstream"
    by (simp add: primaryMoved_def newDescriptor_def oneUpstream_def)
  from Register_duplicate_name_unchanged [OF h, of "[''primary'']"]
  show ?thesis using h
    by (simp add: primaryMoved_def primary_def newDescriptor_def oneUpstream_def)
qed

text \<open>
  Claim C2. In every registry that \<open>RegisterAlertmanager\<close> can have built
  (\<open>registry_ok\<close>, see \<open>registrations_registry_ok\<close>) and for every order of the
  range, registering a descriptor whose name is not a key but whose URI is the URI
  of the entry filed under \<open>k\<close> returns the \<open>DuplicateSource\<close> error carrying \<open>k\<close>,
  the name of that entry, and the registry returned is the registry given.
\<close>

theorem Register_duplicate_source_unchanged:
  assumes "registry_ok ups" and "iteration_of order ups"
    and "Name am \<notin> dom ups"
    and "ups k = Some (Ptr e)" and "URI e = URI am"
  shows "RegisterAlertmanager order ups (Ptr am) =
           Inr (ups, Some (DuplicateSource k (URI am))) \<and> Name e = k"
proof -
  from assms(2,4) have "k \<in> set order"
    by (auto simp: iteration_of_def)
  with assms(1,4,5) have "rangeUpstreams order ups am = Inr (Some (DuplicateSource k (URI am)))"
    by (rule rangeUpstreams_found)
  moreover from assms(1,4) have "Name e = k"
    unfolding registry_ok_def by auto
  ultimately show ?thesis
    using assms(3) by (auto simp: RegisterAlertmanager_def split: option.splits)
qed

theorem Register_duplicate_source_unchanged_witness:
  "registry_ok oneUpstream \<and> iteration_of [''primary''] oneUpstream \<and>
   Name tertiary \<notin> dom oneUpstream \<and>
   oneUpstream ''primary'' = Some (Ptr primary) \<and> URI primary = URI tertiary \<and>
   RegisterAlertmanager [''primary''] oneUpstream (Ptr tertiary) =
     Inr (oneUpstream, Some (DuplicateSource ''primary'' ''http://a.example/api'')) \<and>
   Name primary = ''primary''"
proof -
  have h3: "Name tertiary \<notin> dom oneUpstream"
    by (simp add: tertiary_def newDescriptor_def oneUpstream_def)
  have h4: "oneUpstream ''primary'' = Some (Ptr primary)"
    by (simp add: oneUpstream_def)
  have h5: "URI primary = URI tertiary"
    by (simp add: primary_def tertiary_def newDescriptor_def)
  from Register_duplicate_source_unchanged
    [OF registry_ok_oneUpstream iteration_of_oneUpstream h3 h4 h5]
  show ?thesis
    using registry_ok_oneUpstream iteration_of_oneUpstream h3 h4 h5
    by (simp add: tertiary_def newDescriptor_def)
qed

text \<open>
  Claim C9. When the name of the descriptor is already a key of the registry and its
  URI is also the URI of a registered entry, \<open>RegisterAlertmanager\<close> returns the
  \<open>DuplicateName\<close> error, which is a different error from the \<open>DuplicateSource\<close>
  error for that entry: the lookup by name comes before the loop over the URIs. In
  particular, in the registry \<open>ups\<close> that a successful registration of a descriptor
  returned, registering the same descriptor again returns \<open>DuplicateName\<close>.
\<close>

theorem Register_name_check_first:
  "(Name am \<in> dom ups \<and> ups k = Some (Ptr e) \<and> URI e = URI am \<longrightarrow>
      RegisterAlertmanager order ups (Ptr am) = Inr (ups, Some (DuplicateName (Name am))) \<and>
      DuplicateName (Name am) \<noteq> DuplicateSource (Name e) (URI e)) \<and>
   (RegisterAlertmanager order0 ups0 (Ptr am) = Inr (ups, None) \<longrightarrow>
      RegisterAlertmanager order ups (Ptr am) = Inr (ups, Some (DuplicateName (Name am))))"
proof (intro conjI impI)
  assume "Name am \<in> dom ups \<and> ups k = Some (Ptr e) \<and> URI e = URI am"
  then show "RegisterAlertmanager order ups (Ptr am) = Inr (ups, Some (DuplicateName (Name am)))"
    by (simp add: Register_duplicate_name)
next
  show "DuplicateName (Name am) \<noteq> DuplicateSource (Name e) (URI e)"
    by (rule DuplicateName_neq_DuplicateSource)
next
  assume "RegisterAlertmanager order0 ups0 (Ptr am) = Inr (ups, None)"
  then have "Name am \<in> dom ups"
    by (auto elim: Register_success)
  then show "RegisterAlertmanager order ups (Ptr am) = Inr (ups, Some (DuplicateName (Name am)))"
    by (rule Register_duplicate_name)
qed

theorem Register_name_check_first_witness:
  "Name primary \<in> dom oneUpstream \<and> oneUpstream ''primary'' = Some (Ptr primary) \<and>
   RegisterAlertmanager [''primary''] oneUpstream (Ptr primary) =
     Inr (oneUpstream, Some (DuplicateName ''primary'')) \<and>
   DuplicateName ''primary'' \<noteq> DuplicateSource ''primary'' ''http://a.example/api'' \<and>
   RegisterAlertmanager [] Map.empty (Ptr primary) = Inr (oneUpstream, None)"
proof -
  have h1: "Name primary \<in> dom oneUpstream"
    by (simp add: primary_def newDescriptor_def oneUpstream_def)
  have h2: "oneUpstream ''primary'' = Some (Ptr primary)"
    by (simp add: oneUpstream_def)
  have h3: "RegisterAlertmanager [] Map.empty (Ptr primary) = Inr (oneUpstream, None)"
    by (simp add: RegisterAlertmanager_def primary_def newDescriptor_def oneUpstream_def)
  from Register_name_check_first
    [of primary oneUpstream "''primary''" primary "[''primary'']" "[]" Map.empty]
  show ?thesis using h1 h2 h3
    by (simp add: primary_def newDescriptor_def)
qed

text \<open>
  Claim C10. When \<open>RegisterAlertmanager\<close> returns nil for a pointer, the pointer is
  not nil, \<open>GetAlertmanagerByName\<close> in the new registry returns that pointer for the
  descriptor's name, and for every other name it returns what it returned in the
  registry before.
\<close>

theorem Register_then_GetAlertmanagerByName:
  assumes "RegisterAlertmanager order ups p = Inr (ups', None)"
  shows "\<exists>am. p = Ptr am \<and> GetAlertmanagerByName ups' (Name am) = Ptr am \<and>
           (\<forall>n. n \<noteq> Name am \<longrightarrow> GetAlertmanagerByName ups' n = GetAlertmanagerByName ups n)"
  using assms by (auto elim!: Register_success simp: GetAlertmanagerByName_def)

theorem Register_then_GetAlertmanagerByName_witness:
  "RegisterAlertmanager [''primary''] oneUpstream (Ptr secondary) = Inr (twoUpstreams, None) \<and>
   GetAlertmanagerByName twoUpstreams ''secondary'' = Ptr secondary \<and>
   GetAlertmanagerByName twoUpstreams ''primary'' = GetAlertmanagerByName oneUpstream ''primary'' \<and>
   GetAlertmanagerByName twoUpstreams ''tertiary'' = GetAlertmanagerByName oneUpstream ''tertiary''"
proof -
  have h: "RegisterAlertmanager [''primary''] oneUpstream (Ptr secondary) =
           Inr (twoUpstreams, None)"
    by (simp add: RegisterAlertmanager_def primary_def secondary_def newDescriptor_def
        oneUpstream_def twoUpstreams_def)
  from Register_then_GetAlertmanagerByName [OF h]
  show ?thesis using h
    by (simp add: secondary_def newDescriptor_def)
qed

text \<open>
  Claim C4, as stated, fails on the second half: for a name that is not registered
  \<open>GetAlertmanagerByName\<close> returns \<open>nil\<close>, the null pointer of the result type
  \<open>*Alertmanager\<close>, as its comment says ("or nil if not found").
\<close>

theorem GetAlertmanagerByName_missing_is_nil:
  "''primary'' \<notin> dom (Map.empty :: upstreams) \<and>
   GetAlertmanagerByName Map.empty ''primary'' = nil"
  by (simp add: GetAlertmanagerByName_def)

text \<open>
  Claim C4, amended. In every registry that \<open>RegisterAlertmanager\<close> can have built,
  \<open>GetAlertmanagerByName\<close> returns the registered pointer when the name is a key,
  and that pointer is not nil and points to a descriptor of that name; it returns
  \<open>nil\<close> when the name is not a key; so the result is \<open>nil\<close> exactly when no
  descriptor is registered under the name.
\<close>

theorem GetAlertmanagerByName_nil_iff_missing:
  assumes "registry_ok ups"
  shows "(\<forall>p. ups name = Some p \<longrightarrow>
            GetAlertmanagerByName ups name = p \<and> (\<exists>am. p = Ptr am \<and> Name am = name)) \<and>
         (ups name = None \<longrightarrow> GetAlertmanagerByName ups name = nil) \<and>
         (GetAlertmanagerByName ups name = nil \<longleftrightarrow> name \<notin> dom ups)"
  using assms unfolding registry_ok_def GetAlertmanagerByName_def
  by (auto split: option.splits)

theorem GetAlertmanagerByName_nil_iff_missing_witness:
  "registry_ok oneUpstream \<and>
   GetAlertmanagerByName oneUpstream ''primary'' = Ptr primary \<and>
   Name primary = ''primary'' \<and>
   GetAlertmanagerByName oneUpstream ''secondary'' = nil \<and>
   ''secondary'' \<notin> dom oneUpstream"
proof -
  have p: "oneUpstream ''primary'' = Some (Ptr primary)"
    and q: "oneUpstream ''secondary'' = None"
    by (simp_all add: oneUpstream_def)
  from GetAlertmanagerByName_nil_iff_missing [OF registry_ok_oneUpstream, of "''primary''"]
    GetAlertmanagerByName_nil_iff_missing [OF registry_ok_oneUpstream, of "''secondary''"]
  show ?thesis using registry_ok_oneUpstream p q
    by (simp add: domIff)
qed

section \<open>Listing\<close>

lemma filed_Cons:  "filed (am # ams) = (filed ams)(Name am \<mapsto> Ptr am)"
  by (simp add: filed_def)

lemma dom_filed: "dom (filed ams) = Name ` set ams"
  by (simp add: filed_def dom_map_of_conv_image_fst image_image)

lemma filed_member:
  "distinct (map Name ams) \<Longrightarrow> am \<in> set ams \<Longrightarrow> filed ams (Name am) = Some (Ptr am)"
  unfolding filed_def by (rule map_of_is_SomeI) (simp_all add: comp_def)

lemma filed_perm:
  assumes "distinct (map Name ams)" and "mset ams' = mset ams"
  shows "filed ams' = filed ams"
proof -
  let ?f = "\<lambda>am. (Name am, Ptr am)"
  from assms(2) have m: "mset (map Name ams') = mset (map Name ams)" by simp
  with assms(1) have d: "distinct (map Name ams')"
    by (metis mset_eq_imp_distinct_iff)
  from assms(2) have "set ams' = set ams" by (rule mset_eq_setD)
  then have "set (map ?f ams') = set (map ?f ams)" by simp
  moreover have "map fst (map ?f ams) = map Name ams" "map fst (map ?f ams') = map Name ams'"
    by (simp_all add: comp_def)
  ultimately show ?thesis
    unfolding filed_def using assms(1) d
    by (intro map_of_inject_set [THEN iffD2]) (simp_all add: comp_def)
qed

lemma registrations_from:
  "registrations ups ams ups' \<Longrightarrow>
   distinct (map Name ams) \<and> distinct (map URI ams) \<and>
   (\<forall>am\<in>set ams. ups (Name am) = None \<and>
      (\<forall>k p. ups k = Some p \<longrightarrow> (\<exists>e. p = Ptr e \<and> URI e \<noteq> URI am))) \<and>
   ups' = ups ++ filed ams"
proof (induction rule: registrations.induct)
  case (reg_none ups)
  then show ?case by (simp add: filed_def)
next
  case (reg_call order ups am ups' ams ups'')
  from reg_call.hyps(2) have fresh: "ups (Name am) = None"
    and rng: "rangeUpstreams order ups am = Inr None"
    and ups': "ups' = ups(Name am \<mapsto> Ptr am)"
    by (auto elim: Register_success)
  have uri: "\<exists>e. p = Ptr e \<and> URI e \<noteq> URI am" if "ups k = Some p" for k p
  proof -
    from that reg_call.hyps(1) have "k \<in> set order" by (auto simp: iteration_of_def)
    with rng show ?thesis using that by (rule rangeUpstreams_none)
  qed
  from reg_call.IH have dn: "distinct (map Name ams)" and du: "distinct (map URI ams)"
    and rest: "\<And>am'. am' \<in> set ams \<Longrightarrow> ups' (Name am') = None \<and>
      (\<forall>k p. ups' k = Some p \<longrightarrow> (\<exists>e. p = Ptr e \<and> URI e \<noteq> URI am'))"
    and fin: "ups'' = ups' ++ filed ams"
    by auto
  have n: "Name am' \<noteq> Name am \<and> URI am' \<noteq> URI am \<and> ups (Name am') = None \<and>
       (\<forall>k p. ups k = Some p \<longrightarrow> (\<exists>e. p = Ptr e \<and> URI e \<noteq> URI am'))"
    if "am' \<in> set ams" for am'
  proof -
    from rest [OF that] have a: "ups' (Name am') = None"
      and b: "\<And>k p. ups' k = Some p \<Longrightarrow> \<exists>e. p = Ptr e \<and> URI e \<noteq> URI am'"
      by auto
    from a ups' have 1: "Name am' \<noteq> Name am" by (auto split: if_splits)
    from b [of "Name am" "Ptr am"] ups' have 2: "URI am' \<noteq> URI am" by auto
    from a ups' 1 have 3: "ups (Name am') = None" by simp
    have 4: "\<exists>e. p = Ptr e \<and> URI e \<noteq> URI am'" if "ups k = Some p" for k p
    proof (cases "k = Name am")
      case True
      with that fresh show ?thesis by simp
    next
      case False
      with that ups' have "ups' k = Some p" by simp
      then show ?thesis by (rule b)
    qed
    from 1 2 3 4 show ?thesis by blast
  qed
  have "Name am \<notin> Name ` set ams" "URI am \<notin> URI ` set ams"
    using n by force+
  moreover have "ups'' = ups ++ filed (am # ams)"
  proof -
    from \<open>Name am \<notin> Name ` set ams\<close> have "Name am \<notin> dom (filed ams)"
      by (simp add: dom_filed)
    then have "ups(Name am \<mapsto> Ptr am) ++ filed ams = (ups ++ filed ams)(Name am \<mapsto> Ptr am)"
      by (auto simp: map_add_def fun_eq_iff split: option.splits)
    with fin ups' show ?thesis by (simp add: filed_Cons)
  qed
  ultimately show ?case
    using dn du fresh uri n by auto
qed

lemma registrations_empty:
  assumes "registrations Map.empty ams ups"
  shows "distinct (map Name ams)" and "distinct (map URI ams)" and "ups = filed ams"
  using registrations_from [OF assms] by simp_all

lemma iteration_exists:
  assumes "finite (dom ups)"
  shows "\<exists>order. iteration_of order ups"
  using finite_distinct_list [OF assms] by (auto simp: iteration_of_def)

lemma registrations_possible:
  assumes "finite (dom ups)"
    and "distinct (map Name ams)" and "distinct (map URI ams)"
    and "\<forall>am\<in>set ams. ups (Name am) = None \<and>
           (\<forall>k p. ups k = Some p \<longrightarrow> (\<exists>e. p = Ptr e \<and> URI e \<noteq> URI am))"
  shows "registrations ups ams (ups ++ filed ams)"
  using assms
proof (induction ams arbitrary: ups)
  case Nil
  then show ?case by (simp add: filed_def registrations.reg_none)
next
  case (Cons am ams)
  let ?ups' = "ups(Name am \<mapsto> Ptr am)"
  from Cons.prems(1) obtain order where ord: "iteration_of order ups"
    using iteration_exists by blast
  from Cons.prems(4) have reg: "RegisterAlertmanager order ups (Ptr am) = Inr (?ups', None)"
    by (intro Register_fresh) simp_all
  have "registrations ?ups' ams (?ups' ++ filed ams)"
  proof (rule Cons.IH)
    show "finite (dom ?ups')" using Cons.prems(1) by simp
    show "distinct (map Name ams)" "distinct (map URI ams)"
      using Cons.prems(2,3) by simp_all
    show "\<forall>am'\<in>set ams. ?ups' (Name am') = None \<and>
           (\<forall>k p. ?ups' k = Some p \<longrightarrow> (\<exists>e. p = Ptr e \<and> URI e \<noteq> URI am'))"
    proof (intro ballI conjI allI impI)
      fix am' assume m: "am' \<in> set ams"
      from Cons.prems(2) have "Name am \<notin> Name ` set ams" by simp
      with m have ne: "Name am' \<noteq> Name am" by (metis imageI)
      with Cons.prems(4) m show "?ups' (Name am') = None" by simp
      fix k p assume kp: "?ups' k = Some p"
      show "\<exists>e. p = Ptr e \<and> URI e \<noteq> URI am'"
      proof (cases "k = Name am")
        case True
        with kp have "p = Ptr am" by simp
        moreover from Cons.prems(3) have "URI am \<notin> URI ` set ams" by simp
        with m have "URI am \<noteq> URI am'" by (metis imageI)
        ultimately show ?thesis by simp
      next
        case False
        with kp have "ups k = Some p" by simp
        with Cons.prems(4) m show ?thesis by simp
      qed
    qed
  qed
  moreover have "?ups' ++ filed ams = ups ++ filed (am # ams)"
  proof -
    from Cons.prems(2) have "Name am \<notin> dom (filed ams)"
      by (simp add: dom_filed)
    then show ?thesis
      by (auto simp: filed_Cons map_add_def fun_eq_iff split: option.splits)
  qed
  ultimately show ?case
    using registrations.reg_call [OF ord reg] by simp
qed

lemma GetAlertmanagers_map:
  "set order \<subseteq> dom ups \<Longrightarrow> GetAlertmanagers order ups = map (\<lambda>k. the (ups k)) order"
  by (induction order) (auto split: option.splits)

lemma GetAlertmanagers_filed:
  assumes "distinct (map Name ams)" and "iteration_of order (filed ams)"
  shows "mset (GetAlertmanagers order (filed ams)) = mset (map Ptr ams)"
proof -
  from assms(2) have d: "distinct order" and s: "set order = Name ` set ams"
    by (simp_all add: iteration_of_def dom_filed)
  from d assms(1) s have "mset order = mset (map Name ams)"
    by (intro set_eq_iff_mset_eq_distinct [THEN iffD1]) simp_all
  then have "mset (map (\<lambda>k. the (filed ams k)) order) =
             mset (map (\<lambda>k. the (filed ams k)) (map Name ams))"
    by (metis mset_map)
  also have "map (\<lambda>k. the (filed ams k)) (map Name ams) = map Ptr ams"
    using filed_member [OF assms(1)] by simp
  finally show ?thesis
    using s by (simp add: GetAlertmanagers_map dom_filed)
qed

text \<open>
  Claim C8. When the descriptors \<open>ams\<close> have been registered one after the other,
  each call returning nil, from the empty registry, then \<open>GetAlertmanagers\<close>, in
  whatever order it ranges over the map, returns as many pointers as there are
  descriptors, and they are the pointers to exactly these descriptors (so names and
  URIs are theirs). Registering the same descriptors in any other order \<open>ams'\<close>
  succeeds too and ends in the same registry, hence in the same listing.
\<close>

theorem GetAlertmanagers_after_registrations:
  assumes "registrations Map.empty ams ups" and "iteration_of order ups"
    and "mset ams' = mset ams"
  shows "length (GetAlertmanagers order ups) = length ams \<and>
         mset (GetAlertmanagers order ups) = mset (map Ptr ams) \<and>
         (\<forall>ups'. registrations Map.empty ams' ups' \<longleftrightarrow> ups' = ups)"
proof -
  from assms(1) have dn: "distinct (map Name ams)" and du: "distinct (map URI ams)"
    and ups: "ups = filed ams"
    by (rule registrations_empty)+
  from assms(2) have m: "mset (GetAlertmanagers order ups) = mset (map Ptr ams)"
    unfolding ups by (rule GetAlertmanagers_filed [OF dn])
  then have l: "length (GetAlertmanagers order ups) = length ams"
    by (metis length_map size_mset)
  from assms(3) have "mset (map Name ams') = mset (map Name ams)"
    "mset (map URI ams') = mset (map URI ams)"
    by simp_all
  with dn du have dn': "distinct (map Name ams')" and du': "distinct (map URI ams')"
    by (metis mset_eq_imp_distinct_iff)+
  have same: "filed ams' = ups"
    unfolding ups using dn assms(3) by (rule filed_perm)
  have "registrations Map.empty ams' (Map.empty ++ filed ams')"
    using dn' du' by (intro registrations_possible) simp_all
  with same have ex: "registrations Map.empty ams' ups" by simp
  have "ups' = ups" if "registrations Map.empty ams' ups'" for ups'
    using registrations_empty(3) [OF that] same by simp
  with ex l m show ?thesis by blast
qed

theorem GetAlertmanagers_after_registrations_witness:
  "registrations Map.empty [primary, secondary] twoUpstreams \<and>
   iteration_of [''secondary'', ''primary''] twoUpstreams \<and>
   mset [secondary, primary] = mset [primary, secondary] \<and>
   length (GetAlertmanagers [''secondary'', ''primary''] twoUpstreams) = 2 \<and>
   GetAlertmanagers [''secondary'', ''primary''] twoUpstreams = [Ptr secondary, Ptr primary] \<and>
   registrations Map.empty [secondary, primary] twoUpstreams"
proof -
  have r1: "RegisterAlertmanager [] Map.empty (Ptr primary) = Inr (oneUpstream, None)"
    by (simp add: RegisterAlertmanager_def primary_def newDescriptor_def oneUpstream_def)
  have r2: "RegisterAlertmanager [''primary''] oneUpstream (Ptr secondary) =
            Inr (twoUpstreams, None)"
    by (simp add: RegisterAlertmanager_def primary_def secondary_def newDescriptor_def
        oneUpstream_def twoUpstreams_def)
  have i0: "iteration_of [] Map.empty"
    by (simp add: iteration_of_def)
  have h1: "registrations Map.empty [primary, secondary] twoUpstreams"
    by (rule registrations.reg_call [OF i0 r1
          registrations.reg_call [OF iteration_of_oneUpstream r2 registrations.reg_none]])
  have h2: "iteration_of [''secondary'', ''primary''] twoUpstreams"
    by (auto simp: iteration_of_def twoUpstreams_def)
  have h3: "mset [secondary, primary] = mset [primary, secondary]"
    by (simp add: add.commute)
  have g: "GetAlertmanagers [''secondary'', ''primary''] twoUpstreams =
           [Ptr secondary, Ptr primary]"
    by (simp add: twoUpstreams_def)
  from GetAlertmanagers_after_registrations [OF h1 h2 h3]
  show ?thesis using h1 h2 h3 g by simp
qed

end
